theory Spec2Isabelle
  imports Main
begin

section \<open>Go types, as the reflect package shows them\<close>

text \<open>
  The pipe stores its stages as \<^verbatim>\<open>[]interface{}\<close> and does everything through
  reflection, so the embedding starts with the part of Go's type system that
  \<^verbatim>\<open>reflect.Type\<close> exposes to \<^verbatim>\<open>pipe.go\<close>: the kind, the name, the
  parameter and result lists of a function type, and assignability.

  A defined type carries its name, its underlying type and where it declares
  \<^verbatim>\<open>Error() string\<close>: nowhere, with a value receiver, or with a pointer receiver.
  Function types are not variadic.
\<close>

datatype kind = KBool | KInt | KString | KInterface | KSlice | KPtr | KFunc | KStruct

datatype error_method = NoErrorMethod | OnValue | OnPointer

datatype gotype =
    TBool
  | TInt
  | TString
  | TError
  | TAny
  | TSlice gotype
  | TPtr gotype
  | TFunc "gotype list" "gotype list"
  | TStruct "gotype list"
  | TDefined string gotype error_method

fun Underlying :: "gotype \<Rightarrow> gotype" where
  "Underlying (TDefined n u m) = Underlying u"
| "Underlying t = t"

fun Kind :: "gotype \<Rightarrow> kind" where
  "Kind TBool = KBool"
| "Kind TInt = KInt"
| "Kind TString = KString"
| "Kind TError = KInterface"
| "Kind TAny = KInterface"
| "Kind (TSlice t) = KSlice"
| "Kind (TPtr t) = KPtr"
| "Kind (TFunc ins outs) = KFunc"
| "Kind (TStruct fs) = KStruct"
| "Kind (TDefined n u m) = Kind u"

text \<open>\<^verbatim>\<open>Type.Name()\<close>: the name of a predeclared or defined type, empty for a type literal.\<close>

fun Name :: "gotype \<Rightarrow> string" where
  "Name TBool = ''bool''"
| "Name TInt = ''int''"
| "Name TString = ''string''"
| "Name TError = ''error''"
| "Name (TDefined n u m) = n"
| "Name t = ''''"

fun Named :: "gotype \<Rightarrow> bool" where
  "Named TBool = True"
| "Named TInt = True"
| "Named TString = True"
| "Named TError = True"
| "Named (TDefined n u m) = True"
| "Named t = False"

text \<open>
  Whether the method set of a type has \<^verbatim>\<open>Error() string\<close>: the interface
  \<^verbatim>\<open>error\<close> has it; a defined type has it when it declares it with a value receiver
  or is defined on an interface that has it; a pointer to a defined type has what the
  type declares with either receiver.
\<close>

fun has_Error :: "gotype \<Rightarrow> bool" where
  "has_Error TError = True"
| "has_Error (TDefined n u m) = (m = OnValue \<or> (Kind u = KInterface \<and> has_Error u))"
| "has_Error (TPtr (TDefined n u m)) =
     (m \<noteq> NoErrorMethod \<and> Kind u \<noteq> KInterface \<and> Kind u \<noteq> KPtr)"
| "has_Error t = False"

text \<open>The interface types of the model are \<^verbatim>\<open>interface{}\<close>, \<^verbatim>\<open>error\<close> and the types defined on them.\<close>

definition Implements :: "gotype \<Rightarrow> gotype \<Rightarrow> bool" where
  "Implements v t =
     (if Underlying t = TAny then True
      else if Underlying t = TError then has_Error v
      else False)"

text \<open>
  \<^verbatim>\<open>V.AssignableTo(T)\<close>, by the language's assignability rules: identical types;
  identical underlying types when one of the two is not a named type; \<open>T\<close> an
  interface type that \<open>V\<close> implements.
\<close>

definition AssignableTo :: "gotype \<Rightarrow> gotype \<Rightarrow> bool" where
  "AssignableTo v t =
     (if v = t then True
      else if Underlying v = Underlying t \<and> \<not> (Named v \<and> Named t) then True
      else Kind t = KInterface \<and> Implements v t)"

text \<open>Parameter and result types of a function type (\<^verbatim>\<open>In\<close>, \<^verbatim>\<open>Out\<close>).\<close>

fun Ins :: "gotype \<Rightarrow> gotype list" where
  "Ins (TFunc ins outs) = ins"
| "Ins (TDefined n u m) = Ins u"
| "Ins t = []"

fun Outs :: "gotype \<Rightarrow> gotype list" where
  "Outs (TFunc ins outs) = outs"
| "Outs (TDefined n u m) = Outs u"
| "Outs t = []"

section \<open>Values\<close>

text \<open>
  An \<^verbatim>\<open>interface{}\<close> value is nil, or a dynamic type with its data. The data of a
  function value is \<open>'c\<close>: the code itself for a stage of the pipe, an address for a
  function that merely travels through the pipe as a value.
\<close>

datatype 'c data =
    DNil
  | DBool bool
  | DInt int
  | DStr string
  | DSlice "'c data list"
  | DStruct "'c data list"
  | DRef "'c data"
  | DFunc 'c

datatype 'c iface = NilIface | Iface gotype "'c data"

text \<open>
  A \<^verbatim>\<open>reflect.Value\<close>: the zero Value, or a static type with what it holds. A Value
  of interface kind holds an interface value, which may be nil; any other Value holds
  data of its own type.
\<close>

datatype 'c rvalue = Invalid | RV gotype "'c iface"

type_synonym val = "nat iface"

text \<open>A stage's code: the results for the arguments, \<open>None\<close> when the function panics.\<close>

type_synonym body = "val list \<Rightarrow> val list option"

type_synonym callable = "body iface"

datatype panic =
    NilPointerDereference
  | NumInOfNonFunc
  | InterfaceOfZeroValue
  | AssignableToNilType
  | IsNilOfZeroValue
  | IsNilOfKind kind
  | CallOfZeroValue
  | CallOfNonFunc
  | CallOfNilFunc
  | CallArgumentCount
  | CallZeroValueArgument
  | CallArgumentType gotype gotype
  | InterfaceConversion
  | StagePanic

datatype 'a res = Ok 'a | Panic panic

fun TypeOf :: "'c iface \<Rightarrow> gotype option" where
  "TypeOf NilIface = None"
| "TypeOf (Iface t d) = Some t"

fun ValueOf :: "'c iface \<Rightarrow> 'c rvalue" where
  "ValueOf NilIface = Invalid"
| "ValueOf (Iface t d) = RV t (Iface t d)"

fun IsValid :: "'c rvalue \<Rightarrow> bool" where
  "IsValid Invalid = False"
| "IsValid (RV t x) = True"

fun Interface :: "'c rvalue \<Rightarrow> 'c iface res" where
  "Interface Invalid = Panic InterfaceOfZeroValue"
| "Interface (RV t x) = Ok x"

fun zero_data :: "kind \<Rightarrow> 'c data" where
  "zero_data KBool = DBool False"
| "zero_data KInt = DInt 0"
| "zero_data KString = DStr []"
| "zero_data k = DNil"

definition Zero :: "gotype \<Rightarrow> 'c rvalue" where
  "Zero t = RV t (if Kind t = KInterface then NilIface else Iface t (zero_data (Kind t)))"

text \<open>\<^verbatim>\<open>Value.IsNil()\<close> panics unless the kind can be nil.\<close>

fun IsNil :: "'c rvalue \<Rightarrow> bool res" where
  "IsNil Invalid = Panic IsNilOfZeroValue"
| "IsNil (RV t x) =
     (if Kind t = KInterface then Ok (case x of NilIface \<Rightarrow> True | Iface u d \<Rightarrow> False)
      else if Kind t = KSlice \<or> Kind t = KPtr \<or> Kind t = KFunc
        then Ok (case x of NilIface \<Rightarrow> True | Iface u DNil \<Rightarrow> True | Iface u d \<Rightarrow> False)
      else Panic (IsNilOfKind (Kind t)))"

text \<open>\<^verbatim>\<open>fnType.NumIn()\<close>, on the result of \<^verbatim>\<open>reflect.TypeOf(fn)\<close>.\<close>

fun NumIn :: "gotype option \<Rightarrow> nat res" where
  "NumIn None = Panic NilPointerDereference"
| "NumIn (Some t) = (if Kind t = KFunc then Ok (length (Ins t)) else Panic NumInOfNonFunc)"

text \<open>
  \<^verbatim>\<open>Value.Call\<close>: the receiver is a non-nil function, the argument count is the
  parameter count, no argument is the zero Value, every argument's type is assignable
  to its parameter's type; then the function runs, and each result comes back as a
  Value of the declared result type. The function is given what the arguments hold.
\<close>

fun first_mismatch :: "'c rvalue list \<Rightarrow> gotype list \<Rightarrow> panic option" where
  "first_mismatch (RV t x # vs) (p # ps) =
     (if AssignableTo t p then first_mismatch vs ps else Some (CallArgumentType t p))"
| "first_mismatch vs ps = None"

fun content :: "'c rvalue \<Rightarrow> 'c iface" where
  "content Invalid = NilIface"
| "content (RV t x) = x"

fun Call :: "body rvalue \<Rightarrow> nat rvalue list \<Rightarrow> nat rvalue list res" where
  "Call Invalid args = Panic CallOfZeroValue"
| "Call (RV t x) args =
     (if Kind t \<noteq> KFunc then Panic CallOfNonFunc
      else case x of
        Iface u (DFunc f) \<Rightarrow>
          if length args \<noteq> length (Ins t) then Panic CallArgumentCount
          else if \<not> list_all IsValid args then Panic CallZeroValueArgument
          else (case first_mismatch args (Ins t) of
                  Some p \<Rightarrow> Panic p
                | None \<Rightarrow>
                    (case f (map content args) of
                       None \<Rightarrow> Panic StagePanic
                     | Some rs \<Rightarrow> Ok (map2 RV (Outs t) rs)))
      | _ \<Rightarrow> Panic CallOfNilFunc)"

section \<open>The pipe\<close>

text \<open>
  The errors \<^verbatim>\<open>pipe.go\<close> returns: \<^verbatim>\<open>"argument is not a function"\<close>,
  \<^verbatim>\<open>"not enough arguments for function %v"\<close>, \<^verbatim>\<open>"invalid arguments function %v"\<close>,
  and the non-nil error a stage returned.
\<close>

datatype error =
    NotCallable
  | ArityError gotype
  | ArgumentTypeError
  | StageFailure val

text \<open>
  The mutex serialises the calls; one call at a time is what the model runs. A slice
  is a list, the nil slice the empty list: \<^verbatim>\<open>pipe.go\<close> reads a slice's length and
  elements only.
\<close>

record Pipe =
  funcs :: "callable list"

fun New_loop :: "callable list \<Rightarrow> Pipe \<Rightarrow> (Pipe option \<times> error option) res" where
  "New_loop [] p = Ok (Some p, None)"
| "New_loop (f # fs) p =
     (case TypeOf f of
        None \<Rightarrow> Panic NilPointerDereference
      | Some t \<Rightarrow>
          if Kind t \<noteq> KFunc then Ok (None, Some NotCallable)
          else New_loop fs (p\<lparr>funcs := funcs p @ [f]\<rparr>))"

definition New :: "callable list \<Rightarrow> (Pipe option \<times> error option) res" where
  "New fs = New_loop fs \<lparr>funcs = []\<rparr>"

text \<open>\<^verbatim>\<open>Add\<close> returns the pipe as it leaves it, with the error.\<close>

definition Add :: "Pipe \<Rightarrow> callable \<Rightarrow> (Pipe \<times> error option) res" where
  "Add p f =
     (case TypeOf f of
        None \<Rightarrow> Panic NilPointerDereference
      | Some t \<Rightarrow>
          if Kind t \<noteq> KFunc then Ok (p, Some NotCallable)
          else Ok (p\<lparr>funcs := funcs p @ [f]\<rparr>, None))"

subsection \<open>Execute\<close>

text \<open>Lines 67 to 74: a Value per parameter, the input when there is one, else the zero of the parameter's type.\<close>

definition make_in :: "gotype \<Rightarrow> nat \<Rightarrow> val list \<Rightarrow> nat rvalue list" where
  "make_in fnType numIn inputs =
     map (\<lambda>j. if j < length inputs then ValueOf (inputs ! j) else Zero (Ins fnType ! j)) [0..<numIn]"

text \<open>
  The test of line 83:
  \<^verbatim>\<open>inputs[i] != nil && reflect.TypeOf(inputs[i]).AssignableTo(reflect.TypeOf(in[i].Interface()))\<close>.
\<close>

definition matches :: "val \<Rightarrow> nat rvalue \<Rightarrow> bool res" where
  "matches x v =
     (case TypeOf x of
        None \<Rightarrow> Ok False
      | Some t \<Rightarrow>
          (case Interface v of
             Panic p \<Rightarrow> Panic p
           | Ok y \<Rightarrow>
               (case TypeOf y of
                  None \<Rightarrow> Panic AssignableToNilType
                | Some u \<Rightarrow> Ok (AssignableTo t u))))"

text \<open>Lines 82 to 87, from index \<open>i\<close> on, with \<open>newIn\<close> and the counter \<open>j\<close> as they stand.\<close>

function select_loop ::
  "nat \<Rightarrow> nat \<Rightarrow> val list \<Rightarrow> nat rvalue list \<Rightarrow> nat rvalue list \<Rightarrow> nat \<Rightarrow> (nat rvalue list \<times> nat) res"
where
  "select_loop i numIn inputs ins newIn j =
     (if i < numIn then
        (case matches (inputs ! i) (ins ! i) of
           Panic p \<Rightarrow> Panic p
         | Ok b \<Rightarrow>
             if b then select_loop (Suc i) numIn inputs ins (newIn[i := ValueOf (inputs ! i)]) (Suc j)
             else select_loop (Suc i) numIn inputs ins newIn j)
      else Ok (newIn, j))"
  by pat_completeness auto
termination
  by (relation "measure (\<lambda>(i, numIn, inputs, ins, newIn, j). numIn - i)") auto

declare select_loop.simps [simp del]

text \<open>
  What one pass of a loop does next: go on with a value, return from
  \<^verbatim>\<open>Execute\<close> with outputs and error, or panic.
\<close>

datatype 'a step = Continue 'a | Return "val list \<times> error option" | Panicked panic

text \<open>\<^verbatim>\<open>o.Interface().(error)\<close>\<close>

fun as_error :: "val \<Rightarrow> val res" where
  "as_error NilIface = Panic InterfaceConversion"
| "as_error (Iface t d) = (if has_Error t then Ok (Iface t d) else Panic InterfaceConversion)"

text \<open>
  Lines 98 to 106, over the Values \<^verbatim>\<open>Call\<close> returned, with \<open>outputs\<close> as it stands.
  The patterns stand for \<^verbatim>\<open>o.IsValid()\<close>; of a valid Value \<open>RV t x\<close>,
  \<^verbatim>\<open>o.Type()\<close> is \<open>t\<close> and \<^verbatim>\<open>o.Interface()\<close> is \<open>x\<close>.
\<close>

fun store_outputs :: "nat rvalue list \<Rightarrow> val list \<Rightarrow> (val list) step" where
  "store_outputs [] outputs = Continue outputs"
| "store_outputs (Invalid # os) outputs = store_outputs os outputs"
| "store_outputs (RV t x # os) outputs =
     (if Name t = ''error'' then
        (case IsNil (RV t x) of
           Panic p \<Rightarrow> Panicked p
         | Ok b \<Rightarrow>
             if \<not> b then
               (case as_error x of
                  Panic p \<Rightarrow> Panicked p
                | Ok e \<Rightarrow> Return ([], Some (StageFailure e)))
             else store_outputs os (outputs @ [x]))
      else store_outputs os (outputs @ [x]))"

text \<open>
  Lines 76 to 92: the arguments for the call. With too few inputs \<^verbatim>\<open>Execute\<close>
  returns; with as many as parameters \<open>in\<close> is used as it is; with more, the
  selection loop runs.
\<close>

definition arguments :: "callable \<Rightarrow> val list \<Rightarrow> (nat rvalue list) step" where
  "arguments fn inputs =
     (case NumIn (TypeOf fn) of
        Panic p \<Rightarrow> Panicked p
      | Ok numIn \<Rightarrow>
          (case TypeOf fn of
             None \<Rightarrow> Panicked NilPointerDereference
           | Some fnType \<Rightarrow>
               let ins = make_in fnType numIn inputs in
               if length inputs < numIn then Return ([], Some (ArityError fnType))
               else if length inputs > numIn then
                 (case select_loop 0 numIn inputs ins (replicate numIn Invalid) 0 of
                    Panic p \<Rightarrow> Panicked p
                  | Ok (newIn, j) \<Rightarrow>
                      if j \<noteq> numIn then Return ([], Some ArgumentTypeError)
                      else Continue newIn)
               else Continue ins))"

text \<open>
  The loop over \<^verbatim>\<open>p.funcs\<close>. \<open>calls\<close> is not a variable of the source: it records,
  in order, the argument vector of every \<^verbatim>\<open>Call\<close> the loop makes.
\<close>

fun Execute_loop ::
  "callable list \<Rightarrow> val list \<Rightarrow> nat rvalue list list \<Rightarrow> nat rvalue list list \<times> (val list \<times> error option) res"
where
  "Execute_loop [] inputs calls = (calls, Ok (inputs, None))"
| "Execute_loop (fn # fns) inputs calls =
     (case arguments fn inputs of
        Panicked p \<Rightarrow> (calls, Panic p)
      | Return r \<Rightarrow> (calls, Ok r)
      | Continue args \<Rightarrow>
          (case Call (ValueOf fn) args of
             Panic p \<Rightarrow> (calls @ [args], Panic p)
           | Ok out \<Rightarrow>
               (case store_outputs out [] of
                  Panicked p \<Rightarrow> (calls @ [args], Panic p)
                | Return r \<Rightarrow> (calls @ [args], Ok r)
                | Continue outputs \<Rightarrow> Execute_loop fns outputs (calls @ [args]))))"

definition Execute :: "Pipe \<Rightarrow> val list \<Rightarrow> nat rvalue list list \<times> (val list \<times> error option) res" where
  "Execute p args = Execute_loop (funcs p) args []"

section \<open>Stages to run the pipe on\<close>

text \<open>
  After \<^verbatim>\<open>pipe_test.go\<close>: \<open>fn1\<close> divides (here by an int, with Go's truncating
  division) and returns an error for a zero divisor, \<open>fn2\<close> tells even from odd.
  \<open>fn_pair\<close> takes an int and an error; \<open>fn_check\<close> returns its argument with a
  value of a defined slice type that implements \<^verbatim>\<open>error\<close>.
\<close>

definition int_val :: "int \<Rightarrow> val" where
  "int_val n = Iface TInt (DInt n)"

definition string_val :: "string \<Rightarrow> val" where
  "string_val s = Iface TString (DStr s)"

definition errorString :: gotype where
  "errorString = TDefined ''errorString'' (TStruct [TString]) OnPointer"

definition errors_New :: "string \<Rightarrow> val" where
  "errors_New s = Iface (TPtr errorString) (DRef (DStruct [DStr s]))"

definition ErrList :: gotype where
  "ErrList = TDefined ''ErrList'' (TSlice TString) OnValue"

definition quot :: "int \<Rightarrow> int \<Rightarrow> int" where
  "quot a b = sgn a * sgn b * (\<bar>a\<bar> div \<bar>b\<bar>)"

definition fn1 :: callable where
  "fn1 = Iface (TFunc [TInt, TInt] [TInt, TError])
     (DFunc (\<lambda>args. case args of
        [Iface t (DInt a), Iface u (DInt b)] \<Rightarrow>
          Some (if b = 0 then [int_val 0, errors_New ''division by zero'']
                else [int_val (quot a b), NilIface])
      | _ \<Rightarrow> None))"

definition fn2 :: callable where
  "fn2 = Iface (TFunc [TInt] [TString])
     (DFunc (\<lambda>args. case args of
        [Iface t (DInt a)] \<Rightarrow> Some [string_val (if a mod 2 = 0 then ''even'' else ''odd'')]
      | _ \<Rightarrow> None))"

definition fn_pair :: callable where
  "fn_pair = Iface (TFunc [TInt, TError] [TInt])
     (DFunc (\<lambda>args. case args of
        [Iface t (DInt a), e] \<Rightarrow> Some [int_val a]
      | _ \<Rightarrow> None))"

definition fn_check :: callable where
  "fn_check = Iface (TFunc [TInt] [TInt, ErrList])
     (DFunc (\<lambda>args. case args of
        [Iface t (DInt a)] \<Rightarrow>
          Some [int_val a, Iface ErrList (if a < 0 then DSlice [DStr ''negative''] else DNil)]
      | _ \<Rightarrow> None))"

section \<open>Notions the properties are stated with\<close>

text \<open>
  An output that lets the loop of lines 98 to 106 go on: its declared type is not
  named \<^verbatim>\<open>error\<close>, or it is nil.
\<close>

fun not_failing :: "nat rvalue \<Rightarrow> bool" where
  "not_failing Invalid = True"
| "not_failing (RV t x) = (if Name t = ''error'' then IsNil (RV t x) = Ok True else True)"

text \<open>What \<^verbatim>\<open>New\<close> and \<^verbatim>\<open>Add\<close> let into the pipe: a value of func kind.\<close>

definition is_func :: "callable \<Rightarrow> bool" where
  "is_func f = (case TypeOf f of None \<Rightarrow> False | Some t \<Rightarrow> Kind t = KFunc)"

text \<open>
  Slot \<open>k\<close> of \<open>newIn\<close> once the selection loop has run from index \<open>i\<close> on inputs
  that are compared with their own Values.
\<close>

definition selected :: "nat \<Rightarrow> val list \<Rightarrow> nat rvalue list \<Rightarrow> nat \<Rightarrow> nat rvalue" where
  "selected i inputs newIn k =
     (if i \<le> k \<and> inputs ! k \<noteq> NilIface then ValueOf (inputs ! k) else newIn ! k)"

section \<open>The empty pipe\<close>

text \<open>
  C8. A pipe with no stage returns the arguments it was given, unchanged, with no
  error, and calls nothing.
\<close>

theorem Execute_no_stages:
  "Execute \<lparr>funcs = []\<rparr> args = ([], Ok (args, None))"
  by (simp add: Execute_def)

section \<open>What the parts of Execute compute\<close>

subsection \<open>The selection loop\<close>

text \<open>
  In the surplus case every \<open>in[i]\<close> was built from \<open>inputs[i]\<close>, so line 83 compares
  the type of an input with itself: the test is whether the input is nil.
\<close>

lemma AssignableTo_refl: "AssignableTo t t"
  by (simp add: AssignableTo_def)

lemma matches_ValueOf: "matches x (ValueOf x) = Ok (x \<noteq> NilIface)"
  by (cases x) (simp_all add: matches_def AssignableTo_refl)

lemma length_make_in: "length (make_in fnType numIn inputs) = numIn"
  by (simp add: make_in_def)

lemma make_in_nth:
  "i < numIn \<Longrightarrow> i < length inputs \<Longrightarrow> make_in fnType numIn inputs ! i = ValueOf (inputs ! i)"
  by (simp add: make_in_def)

lemma make_in_exact: "numIn = length inputs \<Longrightarrow> make_in fnType numIn inputs = map ValueOf inputs"
  unfolding make_in_def by (intro nth_equalityI) simp_all

lemma select_loop_closed:
  assumes "numIn \<le> length inputs" "length ins = numIn" "\<forall>k<numIn. ins ! k = ValueOf (inputs ! k)"
    and "length newIn = numIn"
  shows "select_loop i numIn inputs ins newIn j =
     Ok (map (selected i inputs newIn) [0..<numIn],
         j + length (filter (\<lambda>k. inputs ! k \<noteq> NilIface) [i..<numIn]))"
  using assms
proof (induction i numIn inputs ins newIn j rule: select_loop.induct)
  case (1 i numIn inputs ins newIn j)
  show ?case
  proof (cases "i < numIn")
    case False
    have "map (selected i inputs newIn) [0..<numIn] = newIn"
      using False "1.prems"(4) by (intro nth_equalityI) (simp_all add: selected_def)
    then show ?thesis using False
      by (subst select_loop.simps) simp
  next
    case True
    then have m: "matches (inputs ! i) (ins ! i) = Ok (inputs ! i \<noteq> NilIface)"
      using "1.prems" by (simp add: matches_ValueOf)
    have upt: "[i..<numIn] = i # [Suc i..<numIn]"
      using True by (rule upt_conv_Cons)
    show ?thesis
    proof (cases "inputs ! i = NilIface")
      case nil: True
      have sel: "selected (Suc i) inputs newIn = selected i inputs newIn"
        using nil by (auto simp: selected_def fun_eq_iff le_eq_less_or_eq Suc_le_eq)
      have "select_loop i numIn inputs ins newIn j = select_loop (Suc i) numIn inputs ins newIn j"
        using True m nil by (subst select_loop.simps) simp
      also have "\<dots> = Ok (map (selected (Suc i) inputs newIn) [0..<numIn],
         j + length (filter (\<lambda>k. inputs ! k \<noteq> NilIface) [Suc i..<numIn]))"
        using "1.IH"(2)[OF True m _ "1.prems"] nil by simp
      finally show ?thesis using nil by (simp add: upt sel)
    next
      case nonnil: False
      have sel: "selected (Suc i) inputs (newIn[i := ValueOf (inputs ! i)]) k = selected i inputs newIn k"
        if "k < numIn" for k
        using nonnil that "1.prems"(4)
        by (cases "k = i") (auto simp: selected_def)
      have "select_loop i numIn inputs ins newIn j =
            select_loop (Suc i) numIn inputs ins (newIn[i := ValueOf (inputs ! i)]) (Suc j)"
        using True m nonnil by (subst select_loop.simps) simp
      also have "\<dots> = Ok (map (selected (Suc i) inputs (newIn[i := ValueOf (inputs ! i)])) [0..<numIn],
         Suc j + length (filter (\<lambda>k. inputs ! k \<noteq> NilIface) [Suc i..<numIn]))"
        using "1.IH"(1)[OF True m _ "1.prems"(1,2,3)] nonnil "1.prems"(4) by simp
      also have "map (selected (Suc i) inputs (newIn[i := ValueOf (inputs ! i)])) [0..<numIn]
               = map (selected i inputs newIn) [0..<numIn]"
        using sel by simp
      finally show ?thesis using nonnil by (simp add: upt)
    qed
  qed
qed

lemma select_loop_start:
  assumes "numIn \<le> length inputs" "length ins = numIn" "\<forall>k<numIn. ins ! k = ValueOf (inputs ! k)"
  shows "select_loop 0 numIn inputs ins (replicate numIn Invalid) 0 =
     Ok (map ValueOf (take numIn inputs),
         length (filter (\<lambda>x. x \<noteq> NilIface) (take numIn inputs)))"
proof -
  have a: "map (selected 0 inputs (replicate numIn Invalid)) [0..<numIn] = map ValueOf (take numIn inputs)"
    using assms(1) by (intro nth_equalityI) (auto simp: selected_def)
  have "map (\<lambda>k. inputs ! k) [0..<numIn] = take numIn inputs"
    using assms(1) by (intro nth_equalityI) auto
  then have b: "length (filter (\<lambda>k. inputs ! k \<noteq> NilIface) [0..<numIn])
        = length (filter (\<lambda>x. x \<noteq> NilIface) (take numIn inputs))"
    by (metis (mono_tags, lifting) filter_map length_map comp_def filter_cong)
  show ?thesis
    using select_loop_closed[OF assms, of "replicate numIn Invalid" 0 0] a b by simp
qed

subsection \<open>The arguments of the call\<close>

lemma count_all: "length (filter P xs) = length xs \<longleftrightarrow> list_all P xs"
proof (cases "list_all P xs")
  case True
  then have "filter P xs = xs" by (simp add: list_all_iff)
  then show ?thesis using True by simp
next
  case False
  then obtain x where "x \<in> set xs" "\<not> P x" by (auto simp: list_all_iff)
  then have "length (filter P xs) < length xs" by (rule length_filter_less)
  then show ?thesis using False by simp
qed

lemma arguments_deficit:
  assumes "TypeOf fn = Some fnType" "Kind fnType = KFunc" "length inputs < length (Ins fnType)"
  shows "arguments fn inputs = Return ([], Some (ArityError fnType))"
  using assms by (simp add: arguments_def)

lemma arguments_exact:
  assumes "TypeOf fn = Some fnType" "Kind fnType = KFunc" "length inputs = length (Ins fnType)"
  shows "arguments fn inputs = Continue (map ValueOf inputs)"
  using assms by (simp add: arguments_def make_in_exact)

lemma arguments_surplus:
  assumes "TypeOf fn = Some fnType" "Kind fnType = KFunc" "length (Ins fnType) < length inputs"
  shows "arguments fn inputs =
     (if list_all (\<lambda>x. x \<noteq> NilIface) (take (length (Ins fnType)) inputs)
      then Continue (map ValueOf (take (length (Ins fnType)) inputs))
      else Return ([], Some ArgumentTypeError))"
proof -
  let ?n = "length (Ins fnType)"
  have "select_loop 0 ?n inputs (make_in fnType ?n inputs) (replicate ?n Invalid) 0 =
     Ok (map ValueOf (take ?n inputs), length (filter (\<lambda>x. x \<noteq> NilIface) (take ?n inputs)))"
    using assms(3) by (intro select_loop_start) (simp_all add: length_make_in make_in_nth)
  moreover have "length (filter (\<lambda>x. x \<noteq> NilIface) (take ?n inputs)) = ?n
                 \<longleftrightarrow> list_all (\<lambda>x. x \<noteq> NilIface) (take ?n inputs)"
    using count_all[of "\<lambda>x. x \<noteq> NilIface" "take ?n inputs"] assms(3) by simp
  ultimately show ?thesis
    using assms by (simp add: arguments_def)
qed


subsection \<open>The loop over the stages\<close>

text \<open>
  A return from inside the loop carries an error; a run that ends with none has gone
  through all its stages, and more stages go on from where it ended.
\<close>

lemma arguments_Return_error: "arguments fn inputs = Return r \<Longrightarrow> snd r \<noteq> None"
  by (auto simp: arguments_def Let_def split: res.splits option.splits if_splits prod.splits)

lemma store_outputs_Return_error: "store_outputs out acc = Return r \<Longrightarrow> snd r \<noteq> None"
  by (induction out acc rule: store_outputs.induct) (auto split: if_splits res.splits)

lemma Execute_loop_append:
  "Execute_loop pre args c = (calls, Ok (inputs, None)) \<Longrightarrow>
   Execute_loop (pre @ fns) args c = Execute_loop fns inputs calls"
proof (induction pre arbitrary: args c)
  case Nil
  then show ?case by simp
next
  case (Cons fn pre)
  show ?case
  proof (cases "arguments fn args")
    case (Continue a)
    show ?thesis
    proof (cases "Call (ValueOf fn) a")
      case (Ok out)
      show ?thesis
      proof (cases "store_outputs out []")
        case (Continue outputs)
        then show ?thesis using Cons \<open>arguments fn args = Continue a\<close> Ok by simp
      next
        case (Return r)
        then show ?thesis
          using Cons.prems \<open>arguments fn args = Continue a\<close> Ok store_outputs_Return_error[OF Return]
          by auto
      next
        case (Panicked p)
        then show ?thesis using Cons.prems \<open>arguments fn args = Continue a\<close> Ok by simp
      qed
    next
      case (Panic p)
      then show ?thesis using Cons.prems Continue by simp
    qed
  next
    case (Return r)
    then show ?thesis using Cons.prems arguments_Return_error[OF Return] by auto
  next
    case (Panicked p)
    then show ?thesis using Cons.prems by simp
  qed
qed

lemma Execute_at_stage:
  "Execute_loop pre args [] = (calls, Ok (inputs, None)) \<Longrightarrow>
   Execute \<lparr>funcs = pre @ fns\<rparr> args = Execute_loop fns inputs calls"
  by (simp add: Execute_def Execute_loop_append)


subsection \<open>Storing the outputs\<close>

lemma store_outputs_pass:
  "list_all not_failing out \<Longrightarrow>
   store_outputs out acc = Continue (acc @ map content (filter IsValid out))"
  by (induction out acc rule: store_outputs.induct) (auto split: if_splits)

lemma store_outputs_front:
  "list_all not_failing front \<Longrightarrow>
   store_outputs (front @ back) acc = store_outputs back (acc @ map content (filter IsValid front))"
  by (induction front acc rule: store_outputs.induct) (auto split: if_splits)

lemma Call_valid: "Call v args = Ok out \<Longrightarrow> list_all IsValid out"
  by (cases v) (auto simp: list_all_iff set_zip split: if_splits iface.splits data.splits option.splits)

lemma store_outputs_fails_at:
  assumes "k < length out" and "out ! k = RV t x" and "Name t = ''error''"
    and "IsNil (RV t x) = Ok False" and "as_error x = Ok e"
    and "list_all not_failing (take k out)"
  shows "store_outputs out acc = Return ([], Some (StageFailure e))"
proof -
  have "out = take k out @ RV t x # drop (Suc k) out"
    using id_take_nth_drop[OF assms(1)] assms(2) by simp
  then have "store_outputs out acc =
      store_outputs (RV t x # drop (Suc k) out) (acc @ map content (filter IsValid (take k out)))"
    using store_outputs_front[OF assms(6), of "RV t x # drop (Suc k) out" acc] by simp
  then show ?thesis using assms(3,4,5) by simp
qed

lemma as_error_Ok: "as_error x = Ok e \<Longrightarrow> x \<noteq> NilIface \<and> e = x"
  by (cases x) (auto split: if_splits)

lemma store_outputs_Return_named:
  "store_outputs out acc = Return r \<Longrightarrow>
   \<exists>t x. RV t x \<in> set out \<and> Name t = ''error'' \<and> x \<noteq> NilIface \<and> r = ([], Some (StageFailure x))"
proof (induction out arbitrary: acc)
  case Nil
  then show ?case by simp
next
  case (Cons v vs)
  show ?case
  proof (cases v)
    case Invalid
    then show ?thesis using Cons by auto
  next
    case (RV t x)
    have "store_outputs (v # vs) acc = store_outputs vs (acc @ [x]) \<or>
          (\<exists>e. Name t = ''error'' \<and> as_error x = Ok e \<and> r = ([], Some (StageFailure e)))"
    proof (cases "Name t = ''error''")
      case False
      then show ?thesis using RV by simp
    next
      case True
      show ?thesis
      proof (cases "IsNil (RV t x)")
        case (Panic p)
        then show ?thesis using Cons.prems RV True by (simp del: IsNil.simps)
      next
        case (Ok b)
        show ?thesis
        proof (cases "as_error x")
          case (Panic p)
          then show ?thesis using Cons.prems RV True Ok by (cases b) (simp_all del: IsNil.simps)
        next
          case ok: (Ok e)
          then show ?thesis using Cons.prems RV True Ok by (cases b) (simp_all del: IsNil.simps)
        qed
      qed
    qed
    then consider (skip) "store_outputs (v # vs) acc = store_outputs vs (acc @ [x])"
      | (stop) e where "Name t = ''error''" "as_error x = Ok e" "r = ([], Some (StageFailure e))"
      by blast
    then show ?thesis
    proof cases
      case skip
      then obtain t' x' where "RV t' x' \<in> set vs" "Name t' = ''error''" "x' \<noteq> NilIface"
        "r = ([], Some (StageFailure x'))"
        using Cons.IH[of "acc @ [x]"] Cons.prems by auto
      then show ?thesis by auto
    next
      case stop
      then show ?thesis using RV as_error_Ok[of x e] by auto
    qed
  qed
qed


subsection \<open>The reflective call\<close>

lemma first_mismatch_None:
  "length vs = length ps \<Longrightarrow>
   \<forall>i<length vs. \<exists>t x. vs ! i = RV t x \<and> AssignableTo t (ps ! i) \<Longrightarrow>
   first_mismatch vs ps = None"
proof (induction vs ps rule: list_induct2)
  case Nil
  then show ?case by simp
next
  case (Cons v vs p ps)
  from Cons.prems have "\<exists>t x. v = RV t x \<and> AssignableTo t p" by auto
  moreover from Cons.prems have "\<forall>i<length vs. \<exists>t x. vs ! i = RV t x \<and> AssignableTo t (ps ! i)"
    by auto
  ultimately show ?case using Cons.IH by auto
qed

lemma first_mismatch_Some:
  "length vs = length ps \<Longrightarrow> list_all IsValid vs \<Longrightarrow>
   \<exists>i<length vs. \<exists>t x. vs ! i = RV t x \<and> \<not> AssignableTo t (ps ! i) \<Longrightarrow>
   \<exists>p. first_mismatch vs ps = Some p"
proof (induction vs ps rule: list_induct2)
  case Nil
  then show ?case by simp
next
  case (Cons v vs p ps)
  then obtain i t x where i: "i < Suc (length vs)" "(v # vs) ! i = RV t x" "\<not> AssignableTo t ((p # ps) ! i)"
    by auto
  show ?case
  proof (cases v)
    case Invalid
    then show ?thesis using Cons i by (cases i) auto
  next
    case (RV u y)
    then show ?thesis using Cons i by (cases i) auto
  qed
qed

lemma content_ValueOf: "content (ValueOf x) = x"
  by (cases x) simp_all

lemma IsValid_ValueOf: "IsValid (ValueOf x) \<longleftrightarrow> x \<noteq> NilIface"
  by (cases x) simp_all

lemma Call_good:
  assumes "Kind fnType = KFunc" "length xs = length (Ins fnType)"
    and "\<forall>i<length xs. \<exists>t d. xs ! i = Iface t d \<and> AssignableTo t (Ins fnType ! i)"
  shows "Call (ValueOf (Iface fnType (DFunc f))) (map ValueOf xs) =
     (case f xs of None \<Rightarrow> Panic StagePanic | Some rs \<Rightarrow> Ok (map2 RV (Outs fnType) rs))"
proof -
  have v: "list_all IsValid (map ValueOf xs)"
    using assms(3) by (auto simp: list_all_length)
  have "first_mismatch (map ValueOf xs) (Ins fnType) = None"
    using assms(2,3) by (intro first_mismatch_None) auto
  moreover have "map content (map ValueOf xs) = xs"
    by (simp add: content_ValueOf comp_def)
  ultimately show ?thesis using assms(1,2) v by simp
qed

lemma Call_bad:
  assumes "Kind fnType = KFunc" "length xs = length (Ins fnType)"
    and "i < length xs"
    and "case xs ! i of NilIface \<Rightarrow> True | Iface t d \<Rightarrow> \<not> AssignableTo t (Ins fnType ! i)"
  shows "\<exists>p. Call (ValueOf (Iface fnType (DFunc f))) (map ValueOf xs) = Panic p"
proof (cases "list_all IsValid (map ValueOf xs)")
  case False
  then show ?thesis using assms(1,2) by simp
next
  case True
  then have "xs ! i \<noteq> NilIface"
    using assms(3) by (auto simp: list_all_length IsValid_ValueOf)
  then obtain t d where td: "xs ! i = Iface t d" by (cases "xs ! i") auto
  then have "\<not> AssignableTo t (Ins fnType ! i)" using assms(4) by simp
  then have "\<exists>i<length (map ValueOf xs). \<exists>t x. map ValueOf xs ! i = RV t x \<and> \<not> AssignableTo t (Ins fnType ! i)"
    using assms(3) td by (intro exI[of _ i]) auto
  then obtain p where "first_mismatch (map ValueOf xs) (Ins fnType) = Some p"
    using first_mismatch_Some[of "map ValueOf xs" "Ins fnType"] assms(2) True by auto
  then show ?thesis using assms(1,2) True by simp
qed

section \<open>Too few values\<close>

text \<open>
  In what follows \<open>Execute_loop pre args [] = (calls, Ok (inputs, None))\<close> says that
  the stages \<open>pre\<close> have run on \<open>args\<close>, making the calls \<open>calls\<close>, and have left
  \<open>inputs\<close> as the current values for the stage \<open>fn\<close> that comes next; \<open>rest\<close> are
  the stages after \<open>fn\<close>.
\<close>

text \<open>
  C4. When a stage is reached with fewer current values than it has parameters,
  Execute returns no outputs and the error for too few arguments; neither this stage
  nor a later one is called. So it is, in particular, when the arguments given to
  Execute are fewer than the parameters of the first stage.
\<close>

theorem deficit_returns_ArityError:
  assumes "Execute_loop pre args [] = (calls, Ok (inputs, None))"
    and "TypeOf fn = Some fnType" and "Kind fnType = KFunc"
    and "length inputs < length (Ins fnType)"
  shows "Execute \<lparr>funcs = pre @ fn # rest\<rparr> args = (calls, Ok ([], Some (ArityError fnType)))
       \<and> (length args < length (Ins fnType) \<longrightarrow>
            Execute \<lparr>funcs = fn # rest\<rparr> args = ([], Ok ([], Some (ArityError fnType))))"
proof -
  have "Execute \<lparr>funcs = pre @ fn # rest\<rparr> args = (calls, Ok ([], Some (ArityError fnType)))"
    using Execute_at_stage[OF assms(1)] arguments_deficit[OF assms(2,3,4)] by simp
  moreover have "Execute \<lparr>funcs = fn # rest\<rparr> args = ([], Ok ([], Some (ArityError fnType)))"
    if "length args < length (Ins fnType)"
    using arguments_deficit[OF assms(2,3) that] by (simp add: Execute_def)
  ultimately show ?thesis by simp
qed

theorem deficit_returns_ArityError_witness:
  "Execute_loop [fn2] [int_val 3] [] = ([[RV TInt (int_val 3)]], Ok ([string_val ''odd''], None))
   \<and> TypeOf fn1 = Some (TFunc [TInt, TInt] [TInt, TError])
   \<and> Execute \<lparr>funcs = [fn2, fn1, fn2]\<rparr> [int_val 3]
       = ([[RV TInt (int_val 3)]], Ok ([], Some (ArityError (TFunc [TInt, TInt] [TInt, TError]))))
   \<and> Execute \<lparr>funcs = [fn1, fn2]\<rparr> [int_val 3]
       = ([], Ok ([], Some (ArityError (TFunc [TInt, TInt] [TInt, TError]))))"
proof -
  have r: "Execute_loop [fn2] [int_val 3] [] = ([[RV TInt (int_val 3)]], Ok ([string_val ''odd''], None))"
    by code_simp
  have t: "TypeOf fn1 = Some (TFunc [TInt, TInt] [TInt, TError])"
    by (simp add: fn1_def)
  have k: "Kind (TFunc [TInt, TInt] [TInt, TError]) = KFunc" by simp
  have l: "length [string_val ''odd''] < length (Ins (TFunc [TInt, TInt] [TInt, TError]))" by simp
  show ?thesis
    using deficit_returns_ArityError [OF r t k l, of "[fn2]"] r t by simp
qed

section \<open>More values than parameters\<close>

text \<open>
  C5. When a stage with \<open>N\<close> parameters is reached with more than \<open>N\<close> current
  values, and each of the first \<open>N\<close> is a non-nil value of a type assignable to the
  parameter at its position, the arguments of the call are these \<open>N\<close> values in their
  order, the stage's code runs on them, and from here on the run is the run on these
  \<open>N\<close> values alone: the values beyond them reach neither this stage nor a later one.
\<close>

theorem surplus_passes_first_N:
  assumes "Execute_loop pre args [] = (calls, Ok (inputs, None))"
    and "fn = Iface fnType (DFunc f)" and "Kind fnType = KFunc"
    and "length (Ins fnType) < length inputs"
    and "\<forall>i<length (Ins fnType). \<exists>t d. inputs ! i = Iface t d \<and> AssignableTo t (Ins fnType ! i)"
  shows "arguments fn inputs = Continue (map ValueOf (take (length (Ins fnType)) inputs))
       \<and> Call (ValueOf fn) (map ValueOf (take (length (Ins fnType)) inputs)) =
           (case f (take (length (Ins fnType)) inputs) of
              None \<Rightarrow> Panic StagePanic
            | Some rs \<Rightarrow> Ok (map2 RV (Outs fnType) rs))
       \<and> Execute \<lparr>funcs = pre @ fn # rest\<rparr> args =
           Execute_loop (fn # rest) (take (length (Ins fnType)) inputs) calls"
proof -
  let ?n = "length (Ins fnType)"
  have ty: "TypeOf fn = Some fnType" using assms(2) by simp
  have nonnil: "list_all (\<lambda>x. x \<noteq> NilIface) (take ?n inputs)"
    using assms(4,5) by (auto simp: list_all_length)
  have a: "arguments fn inputs = Continue (map ValueOf (take ?n inputs))"
    using arguments_surplus[OF ty assms(3,4)] nonnil by simp
  have b: "arguments fn (take ?n inputs) = Continue (map ValueOf (take ?n inputs))"
    using assms(4) by (intro arguments_exact[OF ty assms(3)]) simp
  have c: "Call (ValueOf fn) (map ValueOf (take ?n inputs)) =
           (case f (take ?n inputs) of None \<Rightarrow> Panic StagePanic | Some rs \<Rightarrow> Ok (map2 RV (Outs fnType) rs))"
    unfolding assms(2) using assms(4,5) by (intro Call_good[OF assms(3)]) auto
  have "Execute_loop (fn # rest) inputs calls = Execute_loop (fn # rest) (take ?n inputs) calls"
    by (simp add: a b)
  then show ?thesis
    using a c Execute_at_stage[OF assms(1)] by simp
qed

theorem surplus_passes_first_N_witness:
  "arguments fn1 [int_val 10, int_val 3, int_val 1] = Continue [RV TInt (int_val 10), RV TInt (int_val 3)]
   \<and> Call (ValueOf fn1) [RV TInt (int_val 10), RV TInt (int_val 3)] = Ok [RV TInt (int_val 3), RV TError NilIface]
   \<and> Execute \<lparr>funcs = [fn1, fn2]\<rparr> [int_val 10, int_val 3, int_val 1]
       = Execute_loop [fn1, fn2] [int_val 10, int_val 3] []
   \<and> Execute \<lparr>funcs = [fn1, fn2]\<rparr> [int_val 10, int_val 3, int_val 1]
       = ([[RV TInt (int_val 10), RV TInt (int_val 3)], [RV TInt (int_val 3)]],
          Ok ([string_val ''odd''], None))"
proof -
  let ?f = "\<lambda>args. case args of
        [Iface t (DInt a), Iface u (DInt b)] \<Rightarrow>
          Some (if b = 0 then [int_val 0, errors_New ''division by zero'']
                else [int_val (quot a b), NilIface])
      | _ \<Rightarrow> None"
  let ?inputs = "[int_val 10, int_val 3, int_val 1]"
  have r: "Execute_loop [] ?inputs [] = ([], Ok (?inputs, None))"
    by simp
  have f: "fn1 = Iface (TFunc [TInt, TInt] [TInt, TError]) (DFunc ?f)"
    by (simp add: fn1_def)
  have k: "Kind (TFunc [TInt, TInt] [TInt, TError]) = KFunc" by simp
  have l: "length (Ins (TFunc [TInt, TInt] [TInt, TError])) < length ?inputs" by simp
  have c: "\<forall>i<length (Ins (TFunc [TInt, TInt] [TInt, TError])).
             \<exists>t d. ?inputs ! i = Iface t d \<and> AssignableTo t (Ins (TFunc [TInt, TInt] [TInt, TError]) ! i)"
    by (simp add: int_val_def AssignableTo_def less_Suc_eq)
  have e: "Execute_loop [fn1, fn2] [int_val 10, int_val 3] []
       = ([[RV TInt (int_val 10), RV TInt (int_val 3)], [RV TInt (int_val 3)]],
          Ok ([string_val ''odd''], None))"
    by code_simp
  have q: "?f [int_val 10, int_val 3] = Some [int_val 3, NilIface]"
    by code_simp
  have t: "take (length (Ins (TFunc [TInt, TInt] [TInt, TError]))) ?inputs = [int_val 10, int_val 3]"
    by simp
  have v: "map ValueOf [int_val 10, int_val 3] = [RV TInt (int_val 10), RV TInt (int_val 3)]"
    by (simp add: int_val_def)
  show ?thesis
    using surplus_passes_first_N [OF r f k l c, of "[fn2]", unfolded t v] e q
    by (simp del: Execute_loop.simps)
qed

text \<open>
  C7. A nil value beyond the first \<open>N\<close> is dropped with the other surplus values,
  unchecked: \<open>fn2\<close>, of one parameter, runs on an int followed by nil.
\<close>

theorem surplus_nil_beyond_N_passes:
  "Execute \<lparr>funcs = [fn2]\<rparr> [int_val 3, NilIface] = ([[RV TInt (int_val 3)]], Ok ([string_val ''odd''], None))"
  by code_simp

text \<open>
  C7, as amended. When a stage with \<open>N\<close> parameters is reached with more than \<open>N\<close>
  current values and one of the first \<open>N\<close> is nil, Execute returns no outputs and the
  error for invalid arguments, and calls nothing more.
\<close>

theorem surplus_nil_among_first_N:
  assumes "Execute_loop pre args [] = (calls, Ok (inputs, None))"
    and "TypeOf fn = Some fnType" and "Kind fnType = KFunc"
    and "length (Ins fnType) < length inputs"
    and "i < length (Ins fnType)" and "inputs ! i = NilIface"
  shows "Execute \<lparr>funcs = pre @ fn # rest\<rparr> args = (calls, Ok ([], Some ArgumentTypeError))"
proof -
  have "\<not> list_all (\<lambda>x. x \<noteq> NilIface) (take (length (Ins fnType)) inputs)"
    using assms(4,5,6) by (auto simp: list_all_length)
  then have "arguments fn inputs = Return ([], Some ArgumentTypeError)"
    using arguments_surplus[OF assms(2,3,4)] by simp
  then show ?thesis
    using Execute_at_stage[OF assms(1)] by simp
qed

theorem surplus_nil_among_first_N_witness:
  "Execute \<lparr>funcs = [fn2]\<rparr> [NilIface, int_val 3] = ([], Ok ([], Some ArgumentTypeError))"
proof -
  have r: "Execute_loop [] [NilIface, int_val 3] [] = ([], Ok ([NilIface, int_val 3], None))"
    by simp
  have t: "TypeOf fn2 = Some (TFunc [TInt] [TString])" by (simp add: fn2_def)
  show ?thesis
    using surplus_nil_among_first_N [OF r t, of 0 "[]"] by simp
qed

text \<open>
  C1. The selection looks at no parameter type. With a string and an int for
  \<open>fn2\<close>, whose one parameter is an int, the string passes the test of line 83,
  and it is \<^verbatim>\<open>Call\<close> that panics on it: Execute returns no error.
\<close>

theorem surplus_check_ignores_parameter_type:
  "Execute \<lparr>funcs = [fn2]\<rparr> [string_val ''x'', int_val 1] =
     ([[RV TString (string_val ''x'')]], Panic (CallArgumentType TString TInt))
   \<and> \<not> AssignableTo TString TInt"
  by code_simp

section \<open>As many values as parameters\<close>

text \<open>
  C10. When a stage is reached with as many current values as it has parameters, the
  arguments of the call are the values as they are, with no test. If each is non-nil
  and of a type assignable to its parameter, the stage's code runs on them. If one is
  nil, or of a type not assignable to its parameter, Execute panics in the call and
  returns nothing: a run that does not panic had non-nil, assignable values here.
\<close>

theorem exact_arity_unchecked:
  assumes "Execute_loop pre args [] = (calls, Ok (inputs, None))"
    and "fn = Iface fnType (DFunc f)" and "Kind fnType = KFunc"
    and "length inputs = length (Ins fnType)"
  shows "arguments fn inputs = Continue (map ValueOf inputs)
       \<and> ((\<forall>i<length inputs. \<exists>t d. inputs ! i = Iface t d \<and> AssignableTo t (Ins fnType ! i)) \<longrightarrow>
            Call (ValueOf fn) (map ValueOf inputs) =
              (case f inputs of None \<Rightarrow> Panic StagePanic | Some rs \<Rightarrow> Ok (map2 RV (Outs fnType) rs)))
       \<and> ((\<exists>i<length inputs. case inputs ! i of NilIface \<Rightarrow> True
                                  | Iface t d \<Rightarrow> \<not> AssignableTo t (Ins fnType ! i)) \<longrightarrow>
            (\<exists>p. Execute \<lparr>funcs = pre @ fn # rest\<rparr> args = (calls @ [map ValueOf inputs], Panic p)))"
proof -
  have ty: "TypeOf fn = Some fnType" using assms(2) by simp
  have a: "arguments fn inputs = Continue (map ValueOf inputs)"
    by (rule arguments_exact[OF ty assms(3,4)])
  have b: "Call (ValueOf fn) (map ValueOf inputs) =
              (case f inputs of None \<Rightarrow> Panic StagePanic | Some rs \<Rightarrow> Ok (map2 RV (Outs fnType) rs))"
    if "\<forall>i<length inputs. \<exists>t d. inputs ! i = Iface t d \<and> AssignableTo t (Ins fnType ! i)"
    unfolding assms(2) using that by (intro Call_good[OF assms(3,4)]) auto
  have c: "\<exists>p. Execute \<lparr>funcs = pre @ fn # rest\<rparr> args = (calls @ [map ValueOf inputs], Panic p)"
    if "\<exists>i<length inputs. case inputs ! i of NilIface \<Rightarrow> True
                                  | Iface t d \<Rightarrow> \<not> AssignableTo t (Ins fnType ! i)"
  proof -
    from that obtain i where "i < length inputs"
      "case inputs ! i of NilIface \<Rightarrow> True | Iface t d \<Rightarrow> \<not> AssignableTo t (Ins fnType ! i)"
      by auto
    then obtain p where "Call (ValueOf fn) (map ValueOf inputs) = Panic p"
      unfolding assms(2) using Call_bad[OF assms(3,4)] by blast
    then show ?thesis
      using a Execute_at_stage[OF assms(1)] by simp
  qed
  show ?thesis using a b c by blast
qed

theorem exact_arity_unchecked_witness:
  "Execute \<lparr>funcs = [fn2]\<rparr> [int_val 3] = ([[RV TInt (int_val 3)]], Ok ([string_val ''odd''], None))
   \<and> arguments fn2 [string_val ''x''] = Continue [RV TString (string_val ''x'')]
   \<and> (\<exists>p. Execute \<lparr>funcs = [fn2]\<rparr> [string_val ''x''] = ([[RV TString (string_val ''x'')]], Panic p))
   \<and> (\<exists>p. Execute \<lparr>funcs = [fn2]\<rparr> [NilIface] = ([[Invalid]], Panic p))"
proof -
  let ?f = "\<lambda>args. case args of
        [Iface t (DInt a)] \<Rightarrow> Some [string_val (if a mod 2 = 0 then ''even'' else ''odd'')]
      | _ \<Rightarrow> None"
  have f: "fn2 = Iface (TFunc [TInt] [TString]) (DFunc ?f)"
    by (simp add: fn2_def)
  have k: "Kind (TFunc [TInt] [TString]) = KFunc" by simp
  have r: "Execute_loop [] xs [] = ([], Ok (xs, None))" for xs by simp
  have l: "length [x] = length (Ins (TFunc [TInt] [TString]))" for x :: val by simp
  have bad: "\<exists>i<length [string_val ''x''].
               case [string_val ''x''] ! i of NilIface \<Rightarrow> True
               | Iface t d \<Rightarrow> \<not> AssignableTo t (Ins (TFunc [TInt] [TString]) ! i)"
    by (simp add: string_val_def AssignableTo_def Implements_def)
  have nil: "\<exists>i<length [NilIface :: val].
               case [NilIface :: val] ! i of NilIface \<Rightarrow> True
               | Iface t d \<Rightarrow> \<not> AssignableTo t (Ins (TFunc [TInt] [TString]) ! i)"
    by simp
  have e: "Execute \<lparr>funcs = [fn2]\<rparr> [int_val 3] = ([[RV TInt (int_val 3)]], Ok ([string_val ''odd''], None))"
    by code_simp
  show ?thesis
    using exact_arity_unchecked [OF r f k l, of "string_val ''x''" "[]"]
          exact_arity_unchecked [OF r f k l, of NilIface "[]"] bad nil e
    by (simp add: string_val_def)
qed

section \<open>The outputs of a stage\<close>

text \<open>
  C2. When the call of a stage returns a non-nil value in a result declared
  \<^verbatim>\<open>error\<close>, the first such among its results, Execute returns at once: no outputs,
  that value as the error, and no call after this stage's.
\<close>

theorem failure_short_circuits:
  assumes "Execute_loop pre args [] = (calls, Ok (inputs, None))"
    and "arguments fn inputs = Continue ins" and "Call (ValueOf fn) ins = Ok out"
    and "k < length out" and "out ! k = RV TError (Iface u d)" and "has_Error u"
    and "list_all not_failing (take k out)"
  shows "Execute \<lparr>funcs = pre @ fn # rest\<rparr> args =
           (calls @ [ins], Ok ([], Some (StageFailure (Iface u d))))"
proof -
  have "store_outputs out [] = Return ([], Some (StageFailure (Iface u d)))"
    using assms(6) by (intro store_outputs_fails_at[OF assms(4,5) _ _ _ assms(7)]) simp_all
  then show ?thesis
    using Execute_at_stage[OF assms(1)] assms(2,3) by simp
qed

theorem failure_short_circuits_witness:
  "arguments fn1 [int_val 10, int_val 0] = Continue [RV TInt (int_val 10), RV TInt (int_val 0)]
   \<and> Call (ValueOf fn1) [RV TInt (int_val 10), RV TInt (int_val 0)]
       = Ok [RV TInt (int_val 0), RV TError (errors_New ''division by zero'')]
   \<and> Execute \<lparr>funcs = [fn1, fn2]\<rparr> [int_val 10, int_val 0]
       = ([[RV TInt (int_val 10), RV TInt (int_val 0)]],
          Ok ([], Some (StageFailure (errors_New ''division by zero''))))"
proof -
  let ?ins = "[RV TInt (int_val 10), RV TInt (int_val 0)]"
  let ?out = "[RV TInt (int_val 0), RV TError (Iface (TPtr errorString) (DRef (DStruct [DStr ''division by zero''])))]"
  have r: "Execute_loop [] [int_val 10, int_val 0] [] = ([], Ok ([int_val 10, int_val 0], None))"
    by simp
  have a: "arguments fn1 [int_val 10, int_val 0] = Continue ?ins"
    by code_simp
  have c: "Call (ValueOf fn1) ?ins = Ok ?out"
    by code_simp
  have k: "1 < length ?out" by simp
  have o: "?out ! 1 = RV TError (Iface (TPtr errorString) (DRef (DStruct [DStr ''division by zero''])))"
    by simp
  have h: "has_Error (TPtr errorString)" by code_simp
  have n: "list_all not_failing (take 1 ?out)" by code_simp
  show ?thesis
    using failure_short_circuits [OF r a c k o h n, of "[fn2]"] a c
    by (simp add: errors_New_def)
qed

text \<open>
  C3. A nil error is one of the values handed on. \<open>fn1\<close> returns a quotient and a
  nil error; both are stored, and \<open>fn_pair\<close> after it is called with the two, the nil
  as the zero Value.
\<close>

theorem nil_failure_slot_threaded:
  "Call (ValueOf fn1) [RV TInt (int_val 10), RV TInt (int_val 3)] = Ok [RV TInt (int_val 3), RV TError NilIface]
   \<and> store_outputs [RV TInt (int_val 3), RV TError NilIface] [] = Continue [int_val 3, NilIface]
   \<and> [int_val 3, NilIface] \<noteq> [int_val 3]
   \<and> Execute \<lparr>funcs = [fn1, fn_pair]\<rparr> [int_val 10, int_val 3]
       = ([[RV TInt (int_val 10), RV TInt (int_val 3)], [RV TInt (int_val 3), Invalid]],
          Panic CallZeroValueArgument)"
  by code_simp

text \<open>
  C3, as amended. When no result of a stage's call is a non-nil value declared
  \<^verbatim>\<open>error\<close>, the current values for the next stage are all the results, in their
  declared order, a nil error among them as a nil value.
\<close>

theorem outputs_threaded_whole:
  assumes "Execute_loop pre args [] = (calls, Ok (inputs, None))"
    and "arguments fn inputs = Continue ins" and "Call (ValueOf fn) ins = Ok out"
    and "list_all not_failing out"
  shows "Execute \<lparr>funcs = pre @ fn # rest\<rparr> args =
           Execute_loop rest (map content out) (calls @ [ins])"
proof -
  have "filter IsValid out = out"
    using Call_valid[OF assms(3)] by (simp add: list_all_iff)
  then have "store_outputs out [] = Continue (map content out)"
    using store_outputs_pass[OF assms(4), of "[]"] by simp
  then show ?thesis
    using Execute_at_stage[OF assms(1)] assms(2,3) by simp
qed

theorem outputs_threaded_whole_witness:
  "Call (ValueOf fn1) [RV TInt (int_val 10), RV TInt (int_val 3)] = Ok [RV TInt (int_val 3), RV TError NilIface]
   \<and> list_all not_failing [RV TInt (int_val 3), RV TError NilIface]
   \<and> Execute \<lparr>funcs = [fn1, fn2]\<rparr> [int_val 10, int_val 3]
       = Execute_loop [fn2] [int_val 3, NilIface] [[RV TInt (int_val 10), RV TInt (int_val 3)]]"
proof -
  let ?ins = "[RV TInt (int_val 10), RV TInt (int_val 3)]"
  let ?out = "[RV TInt (int_val 3), RV TError NilIface]"
  have r: "Execute_loop [] [int_val 10, int_val 3] [] = ([], Ok ([int_val 10, int_val 3], None))"
    by simp
  have a: "arguments fn1 [int_val 10, int_val 3] = Continue ?ins"
    by code_simp
  have c: "Call (ValueOf fn1) ?ins = Ok ?out"
    by code_simp
  have n: "list_all not_failing ?out" by code_simp
  show ?thesis
    using outputs_threaded_whole [OF r a c n, of "[fn2]"] c n by simp
qed

text \<open>
  C9. The test for a failure is the name of the declared result type. When no result
  of a stage is declared with a type named \<^verbatim>\<open>error\<close>, all results are handed on as
  they are, whatever they hold, values of a defined type that implements
  \<^verbatim>\<open>error\<close> included. And when storing the results does return from Execute, one of
  them is non-nil and declared with a type named \<^verbatim>\<open>error\<close>, and it is the error
  returned.
\<close>

theorem failure_detection_by_name:
  assumes "Execute_loop pre args [] = (calls, Ok (inputs, None))"
    and "arguments fn inputs = Continue ins" and "Call (ValueOf fn) ins = Ok out"
    and "\<forall>t x. RV t x \<in> set out \<longrightarrow> Name t \<noteq> ''error''"
  shows "Execute \<lparr>funcs = pre @ fn # rest\<rparr> args =
           Execute_loop rest (map content out) (calls @ [ins])
       \<and> (store_outputs vs acc = Return r \<longrightarrow>
            (\<exists>t x. RV t x \<in> set vs \<and> Name t = ''error'' \<and> x \<noteq> NilIface
                   \<and> r = ([], Some (StageFailure x))))"
proof -
  have "not_failing v" if "v \<in> set out" for v
  proof (cases v)
    case Invalid
    then show ?thesis by simp
  next
    case (RV t x)
    then have "Name t \<noteq> ''error''" using that assms(4) by blast
    then show ?thesis using RV by simp
  qed
  then have nf: "list_all not_failing out" by (simp add: list_all_iff)
  have "filter IsValid out = out"
    using Call_valid[OF assms(3)] by (simp add: list_all_iff)
  then have "store_outputs out [] = Continue (map content out)"
    using store_outputs_pass[OF nf, of "[]"] by simp
  then have "Execute \<lparr>funcs = pre @ fn # rest\<rparr> args =
           Execute_loop rest (map content out) (calls @ [ins])"
    using Execute_at_stage[OF assms(1)] assms(2,3) by simp
  then show ?thesis using store_outputs_Return_named[of vs acc r] by blast
qed

theorem failure_detection_by_name_witness:
  "Call (ValueOf fn_check) [RV TInt (int_val (- 3))]
      = Ok [RV TInt (int_val (- 3)), RV ErrList (Iface ErrList (DSlice [DStr ''negative'']))]
   \<and> has_Error ErrList \<and> Name ErrList = ''ErrList''
   \<and> Execute \<lparr>funcs = [fn_check, fn2]\<rparr> [int_val (- 3)]
       = Execute_loop [fn2] [int_val (- 3), Iface ErrList (DSlice [DStr ''negative''])] [[RV TInt (int_val (- 3))]]
   \<and> Execute \<lparr>funcs = [fn_check]\<rparr> [int_val (- 3)]
       = ([[RV TInt (int_val (- 3))]], Ok ([int_val (- 3), Iface ErrList (DSlice [DStr ''negative''])], None))
   \<and> store_outputs [RV TInt (int_val 0), RV TError (errors_New ''division by zero'')] []
       = Return ([], Some (StageFailure (errors_New ''division by zero'')))
   \<and> (\<exists>t x. RV t x \<in> set [RV TInt (int_val 0), RV TError (errors_New ''division by zero'')]
          \<and> Name t = ''error'' \<and> x \<noteq> NilIface)"
proof -
  let ?ins = "[RV TInt (int_val (- 3))]"
  let ?out = "[RV TInt (int_val (- 3)), RV ErrList (Iface ErrList (DSlice [DStr ''negative'']))]"
  let ?vs = "[RV TInt (int_val 0), RV TError (errors_New ''division by zero'')]"
  have r: "Execute_loop [] [int_val (- 3)] [] = ([], Ok ([int_val (- 3)], None))"
    by simp
  have a: "arguments fn_check [int_val (- 3)] = Continue ?ins"
    by code_simp
  have c: "Call (ValueOf fn_check) ?ins = Ok ?out"
    by code_simp
  have n: "\<forall>t x. RV t x \<in> set ?out \<longrightarrow> Name t \<noteq> ''error''"
    by (auto simp: ErrList_def)
  have s: "store_outputs ?vs [] = Return ([], Some (StageFailure (errors_New ''division by zero'')))"
    by code_simp
  have h: "has_Error ErrList \<and> Name ErrList = ''ErrList''" by (simp add: ErrList_def)
  show ?thesis
    using failure_detection_by_name [OF r a c n, of "[fn2]" ?vs "[]"
            "([], Some (StageFailure (errors_New ''division by zero'')))"]
          failure_detection_by_name [OF r a c n, of "[]" ?vs "[]"
            "([], Some (StageFailure (errors_New ''division by zero'')))"] c s h
    by auto
qed

section \<open>New and Add\<close>

text \<open>
  The stages of a pipe that \<^verbatim>\<open>New\<close> and \<^verbatim>\<open>Add\<close> have built are values of func
  kind, in the order given. A non-nil value that is not a function is refused:
  \<^verbatim>\<open>New\<close> returns no pipe, \<^verbatim>\<open>Add\<close> leaves the pipe as it was.
\<close>

lemma New_loop_funcs:
  "New_loop fs p = Ok (Some q, e) \<Longrightarrow> funcs q = funcs p @ fs \<and> list_all is_func fs \<and> e = None"
  by (induction fs arbitrary: p) (auto simp: is_func_def split: option.splits if_splits)

lemma New_funcs:
  "New fs = Ok (Some q, e) \<Longrightarrow> funcs q = fs \<and> list_all is_func fs \<and> e = None"
  using New_loop_funcs[of fs "\<lparr>funcs = []\<rparr>" q e] by (simp add: New_def)

lemma New_loop_of_functions:
  "list_all is_func fs \<Longrightarrow> New_loop fs p = Ok (Some (p\<lparr>funcs := funcs p @ fs\<rparr>), None)"
  by (induction fs arbitrary: p) (auto simp: is_func_def split: option.splits)

lemma New_of_functions:
  "list_all is_func fs \<Longrightarrow> New fs = Ok (Some \<lparr>funcs = fs\<rparr>, None)"
  using New_loop_of_functions[of fs "\<lparr>funcs = []\<rparr>"] by (simp add: New_def)

lemma Add_funcs:
  "Add p f = Ok (q, None) \<Longrightarrow> funcs q = funcs p @ [f] \<and> is_func f"
  by (auto simp: Add_def is_func_def split: option.splits if_splits)

lemma Add_of_function:
  "is_func f \<Longrightarrow> Add p f = Ok (p\<lparr>funcs := funcs p @ [f]\<rparr>, None)"
  by (auto simp: Add_def is_func_def split: option.splits)

lemma New_rejects_non_function:
  assumes "list_all is_func fs" and "TypeOf g = Some t" and "Kind t \<noteq> KFunc"
  shows "New (fs @ g # hs) = Ok (None, Some NotCallable)"
proof -
  have "New_loop (fs @ g # hs) p = Ok (None, Some NotCallable)" for p
    using assms by (induction fs arbitrary: p) (auto simp: is_func_def split: option.splits)
  then show ?thesis by (simp add: New_def)
qed

lemma Add_rejects_non_function:
  "TypeOf g = Some t \<Longrightarrow> Kind t \<noteq> KFunc \<Longrightarrow> Add p g = Ok (p, Some NotCallable)"
  by (simp add: Add_def)

text \<open>
  C6. For nil, \<^verbatim>\<open>reflect.TypeOf\<close> returns the nil Type, and \<^verbatim>\<open>Kind\<close> on it
  panics: \<^verbatim>\<open>New\<close> and \<^verbatim>\<open>Add\<close> return no error for a nil argument.
\<close>

theorem New_Add_nil_panic:
  "New [NilIface] = Panic NilPointerDereference
   \<and> New [fn1, NilIface] = Panic NilPointerDereference
   \<and> Add p NilIface = Panic NilPointerDereference"
  by (simp add: New_def Add_def fn1_def)

end
